theory Spec2Isabelle
  imports Main
begin

section \<open>Type descriptors\<close>

text \<open>
  A type annotation of a field is either a class object or a \<^verbatim>\<open>typing\<close> generic alias.
  Class objects are compared by identity, so a class is named by its address
  (\<open>Class k\<close>); \<open>NoneType\<close> is the class of \<^verbatim>\<open>None\<close>. A generic alias carries its
  \<^verbatim>\<open>__origin__\<close> and its \<^verbatim>\<open>__args__\<close> and is compared by both (\<open>py_eq\<close> below):
  \<^verbatim>\<open>Optional[T]\<close> is \<^verbatim>\<open>Union[T, None]\<close>, that is \<open>Alias UnionO [T, NoneType]\<close>, and
  \<^verbatim>\<open>List[T]\<close> is \<open>Alias ListO [T]\<close>.
\<close>

datatype origin = UnionO | ListO | OtherO string

datatype ptype = NoneType | Class nat | Alias origin "ptype list"

text \<open>
  What a \<^verbatim>\<open>__fields__\<close> dictionary holds: a \<^verbatim>\<open>Field\<close> with its \<^verbatim>\<open>ftype\<close>, a
  \<^verbatim>\<open>ResolverField\<close> (a subclass of \<^verbatim>\<open>Field\<close>) with its \<^verbatim>\<open>ftype\<close> and its
  \<^verbatim>\<open>params\<close> dictionary, or any other object (\<open>NonField\<close>), which has neither.
\<close>

datatype field = Field ptype | ResolverField ptype "(string \<times> ptype) list" | NonField

text \<open>
  The class table: the classes created by one of the five metaclasses, by address, each
  with what the registrar reads from it: \<^verbatim>\<open>__fields__\<close>, \<^verbatim>\<open>members\<close>, and for an
  interface the result of \<^verbatim>\<open>__subclasses__()\<close>. A class that is not in the table
  (\<^verbatim>\<open>str\<close>, \<^verbatim>\<open>int\<close>, ...) is an instance of none of the metaclasses.
\<close>

datatype decl =
    ObjectD "(string \<times> field) list"
  | UnionD "ptype list"
  | InputD "(string \<times> field) list"
  | InterfaceD "(string \<times> field) list" "ptype list"
  | EnumD "string list"

type_synonym class_table = "(nat \<times> decl) list"

datatype violation = InvalidRootName string | InvalidField | NotOptional | NotObject | ObjectRule string

text \<open>
  The exceptions of the model. \<open>BaseOnly\<close> stands for an exception that derives from
  \<^verbatim>\<open>BaseException\<close> but not from \<^verbatim>\<open>Exception\<close>.
\<close>

datatype exn =
    ValidationError violation
  | AttributeError
  | IndexError
  | KeyError string
  | TypeError
  | GraphQLSyntaxError
  | ResolveError string
  | BaseOnly string

fun is_Exception :: "exn \<Rightarrow> bool" where
  "is_Exception (BaseOnly _) = False"
| "is_Exception _ = True"

definition descriptor :: "class_table \<Rightarrow> ptype \<Rightarrow> decl option" where
  "descriptor tbl t = (case t of Class k \<Rightarrow> map_of tbl k | _ \<Rightarrow> None)"

definition is_ObjectType :: "class_table \<Rightarrow> ptype \<Rightarrow> bool" where
  "is_ObjectType tbl t = (case descriptor tbl t of Some (ObjectD _) \<Rightarrow> True | _ \<Rightarrow> False)"

definition is_UnionType :: "class_table \<Rightarrow> ptype \<Rightarrow> bool" where
  "is_UnionType tbl t = (case descriptor tbl t of Some (UnionD _) \<Rightarrow> True | _ \<Rightarrow> False)"

definition is_InputType :: "class_table \<Rightarrow> ptype \<Rightarrow> bool" where
  "is_InputType tbl t = (case descriptor tbl t of Some (InputD _) \<Rightarrow> True | _ \<Rightarrow> False)"

definition is_InterfaceType :: "class_table \<Rightarrow> ptype \<Rightarrow> bool" where
  "is_InterfaceType tbl t = (case descriptor tbl t of Some (InterfaceD _ _) \<Rightarrow> True | _ \<Rightarrow> False)"

definition is_EnumType :: "class_table \<Rightarrow> ptype \<Rightarrow> bool" where
  "is_EnumType tbl t = (case descriptor tbl t of Some (EnumD _) \<Rightarrow> True | _ \<Rightarrow> False)"

text \<open>
  \<^verbatim>\<open>ptype.__fields__\<close>, \<^verbatim>\<open>ptype.members\<close>, \<^verbatim>\<open>ptype.__subclasses__()\<close> and
  \<^verbatim>\<open>ptype.__args__\<close>. An alias with no argument is the bare generic (\<^verbatim>\<open>typing.List\<close>),
  which like a class has no \<^verbatim>\<open>__args__\<close>: reading it raises.
\<close>

definition fields_of :: "class_table \<Rightarrow> ptype \<Rightarrow> (string \<times> field) list" where
  "fields_of tbl t = (case descriptor tbl t of
      Some (ObjectD fs) \<Rightarrow> fs
    | Some (InputD fs) \<Rightarrow> fs
    | Some (InterfaceD fs _) \<Rightarrow> fs
    | _ \<Rightarrow> [])"

definition members :: "class_table \<Rightarrow> ptype \<Rightarrow> ptype list" where
  "members tbl t = (case descriptor tbl t of Some (UnionD ms) \<Rightarrow> ms | _ \<Rightarrow> [])"

definition subclasses :: "class_table \<Rightarrow> ptype \<Rightarrow> ptype list" where
  "subclasses tbl t = (case descriptor tbl t of Some (InterfaceD _ subs) \<Rightarrow> subs | _ \<Rightarrow> [])"

fun py_args :: "ptype \<Rightarrow> exn + ptype list" where
  "py_args (Alias _ []) = Inl AttributeError"
| "py_args (Alias _ ts) = Inr ts"
| "py_args _ = Inl AttributeError"

text \<open>
  Modelled from the spec: the predicates \<^verbatim>\<open>is_union\<close>, \<^verbatim>\<open>is_list\<close> and
  \<^verbatim>\<open>is_optional\<close> of \<^verbatim>\<open>pygraphy.utils\<close>, which the source imports. They classify an
  annotation by its shape: a union holds N type arguments, a list wrapper one, and an
  optional wrapper is the union of one inner type with \<^verbatim>\<open>None\<close>.
\<close>

fun is_union :: "ptype \<Rightarrow> bool" where
  "is_union (Alias UnionO _) = True"
| "is_union _ = False"

fun is_list :: "ptype \<Rightarrow> bool" where
  "is_list (Alias ListO _) = True"
| "is_list _ = False"

fun is_optional :: "ptype \<Rightarrow> bool" where
  "is_optional (Alias UnionO [_, t]) = (t = NoneType)"
| "is_optional _ = False"

section \<open>The registrar\<close>

text \<open>
  \<^verbatim>\<open>ptype in cls.validated_type\<close> compares with \<^verbatim>\<open>==\<close>. Classes are equal when they are
  the same class. Two aliases are equal when their origins are and, for a
  \<^verbatim>\<open>typing.Union\<close>, their arguments are equal as sets (the order of the members does not
  count), for every other origin their argument tuples are equal.
\<close>

fun py_eq :: "ptype \<Rightarrow> ptype \<Rightarrow> bool" where
  "py_eq NoneType NoneType = True"
| "py_eq (Class a) (Class b) = (a = b)"
| "py_eq (Alias o1 xs) (Alias o2 ys) =
     (o1 = o2 \<and>
      (if o1 = UnionO
       then list_all (\<lambda>x. list_ex (\<lambda>y. py_eq x y) ys) xs \<and>
            list_all (\<lambda>y. list_ex (\<lambda>x. py_eq x y) xs) ys
       else list_all2 py_eq xs ys))"
| "py_eq _ _ = False"

definition py_in :: "ptype \<Rightarrow> ptype list \<Rightarrow> bool" where
  "py_in t xs = list_ex (py_eq t) xs"

record registry =
  validated_type :: "ptype list"
  registered_type :: "ptype list"

text \<open>
  The loop of \<^verbatim>\<open>register_fields_type\<close>: the \<^verbatim>\<open>ftype\<close> of every field and, for a
  \<^verbatim>\<open>ResolverField\<close>, the values of its \<^verbatim>\<open>params\<close>. Reading \<^verbatim>\<open>ftype\<close> of an object
  that is no field raises.
\<close>

fun param_return_types :: "field list \<Rightarrow> exn + ptype list" where
  "param_return_types [] = Inr []"
| "param_return_types (Field t # fs) = map_sum id ((#) t) (param_return_types fs)"
| "param_return_types (ResolverField t ps # fs) =
     map_sum id (\<lambda>ts. t # map snd ps @ ts) (param_return_types fs)"
| "param_return_types (NonField # fs) = Inl AttributeError"

definition register :: "ptype \<Rightarrow> registry \<Rightarrow> registry" where
  "register t st = st\<lparr>registered_type := registered_type st @ [t]\<rparr>"

text \<open>
  \<^verbatim>\<open>register_types\<close>, with the body of \<^verbatim>\<open>register_fields_type\<close> written out at each
  of its three calls (\<open>param_return_types\<close>, then \<open>register_types\<close> on its result).
  The visited check is the membership test of Python lists, \<open>py_in\<close>; the union and list
  branch reads \<^verbatim>\<open>__args__\<close>, which raises for a bare alias.
  The result is \<open>None\<close> when the call does not return, \<open>Some (Inl e)\<close> when it raises
  and \<open>Some (Inr st)\<close> when it returns, leaving the two lists as in \<open>st\<close>.
\<close>

partial_function (option) register_types ::
  "class_table \<Rightarrow> ptype list \<Rightarrow> registry \<Rightarrow> (exn + registry) option" where
  "register_types tbl types st =
    (case types of
      [] \<Rightarrow> Some (Inr st)
    | ptype # rest \<Rightarrow>
        if py_in ptype (validated_type st) then register_types tbl rest st
        else
          let st1 = st\<lparr>validated_type := validated_type st @ [ptype]\<rparr> in
          Option.bind
            (if is_ObjectType tbl ptype then
               (case param_return_types (map snd (fields_of tbl ptype)) of
                  Inl e \<Rightarrow> Some (Inl e)
                | Inr ts \<Rightarrow> register_types tbl ts (register ptype st1))
             else if is_union ptype \<or> is_list ptype then
               (case py_args ptype of
                  Inl e \<Rightarrow> Some (Inl e)
                | Inr ts \<Rightarrow> register_types tbl ts st1)
             else if is_UnionType tbl ptype then
               register_types tbl (members tbl ptype) (register ptype st1)
             else if is_InputType tbl ptype then
               (case param_return_types (map snd (fields_of tbl ptype)) of
                  Inl e \<Rightarrow> Some (Inl e)
                | Inr ts \<Rightarrow> register_types tbl ts (register ptype st1))
             else if is_InterfaceType tbl ptype then
               (case param_return_types (map snd (fields_of tbl ptype)) of
                  Inl e \<Rightarrow> Some (Inl e)
                | Inr ts \<Rightarrow>
                    Option.bind (register_types tbl ts (register ptype st1))
                      (\<lambda>r. case r of
                         Inl e \<Rightarrow> Some (Inl e)
                       | Inr st2 \<Rightarrow> register_types tbl (subclasses tbl ptype) st2))
             else if is_EnumType tbl ptype then Some (Inr (register ptype st1))
             else Some (Inr st1))
            (\<lambda>r. case r of
               Inl e \<Rightarrow> Some (Inl e)
             | Inr st2 \<Rightarrow> register_types tbl rest st2))"

definition register_fields_type ::
  "class_table \<Rightarrow> field list \<Rightarrow> registry \<Rightarrow> (exn + registry) option" where
  "register_fields_type tbl fs st =
    (case param_return_types fs of
       Inl e \<Rightarrow> Some (Inl e)
     | Inr ts \<Rightarrow> register_types tbl ts st)"

section \<open>Schema validation and construction\<close>

definition VALID_ROOT_TYPES :: "string set" where
  "VALID_ROOT_TYPES = {''query'', ''mutation''}"

text \<open>\<^verbatim>\<open>isinstance(field, Field)\<close> and \<^verbatim>\<open>field.ftype\<close>.\<close>

fun is_Field :: "field \<Rightarrow> bool" where
  "is_Field NonField = False"
| "is_Field _ = True"

fun ftype :: "field \<Rightarrow> exn + ptype" where
  "ftype (Field t) = Inr t"
| "ftype (ResolverField t _) = Inr t"
| "ftype NonField = Inl AttributeError"

text \<open>
  \<^verbatim>\<open>t.__args__[0]\<close>: a class has no \<^verbatim>\<open>__args__\<close>, and neither has a bare alias.
\<close>

fun first_arg :: "ptype \<Rightarrow> exn + ptype" where
  "first_arg (Alias _ (a # _)) = Inr a"
| "first_arg (Alias _ []) = Inl AttributeError"
| "first_arg _ = Inl AttributeError"

text \<open>
  The loop of \<^verbatim>\<open>SchemaType.validate\<close> over \<^verbatim>\<open>cls.__fields__.items()\<close>: four checks
  for each item, in the order of the source, the first failure raising.
\<close>

fun root_checks :: "class_table \<Rightarrow> (string \<times> field) list \<Rightarrow> exn + unit" where
  "root_checks tbl [] = Inr ()"
| "root_checks tbl ((name, field) # items) =
    (if name \<notin> VALID_ROOT_TYPES then Inl (ValidationError (InvalidRootName name))
     else if \<not> is_Field field then Inl (ValidationError InvalidField)
     else case ftype field of
       Inl e \<Rightarrow> Inl e
     | Inr t \<Rightarrow>
         if \<not> is_optional t then Inl (ValidationError NotOptional)
         else case first_arg t of
           Inl e \<Rightarrow> Inl e
         | Inr inner \<Rightarrow>
             if \<not> is_ObjectType tbl inner then Inl (ValidationError NotObject)
             else root_checks tbl items)"

text \<open>
  \<^verbatim>\<open>SchemaType.validate\<close>: the loop, then \<^verbatim>\<open>ObjectType.validate(cls)\<close>, which is not part
  of the source file and is taken as the parameter \<open>object_validate\<close>.
\<close>

definition validate ::
  "((string \<times> field) list \<Rightarrow> exn + unit) \<Rightarrow> class_table \<Rightarrow> (string \<times> field) list \<Rightarrow> exn + unit" where
  "validate object_validate tbl attrs =
    (case root_checks tbl attrs of
       Inl e \<Rightarrow> Inl e
     | Inr _ \<Rightarrow> object_validate attrs)"

text \<open>
  The schema class that \<^verbatim>\<open>SchemaType.__new__\<close> returns: its \<^verbatim>\<open>__fields__\<close> and its
  \<^verbatim>\<open>registered_type\<close>. Both lists start empty, validation runs first, and the
  registrar starts from the values of \<^verbatim>\<open>__fields__\<close>.
\<close>

record schema =
  root_fields :: "(string \<times> field) list"
  registered :: "ptype list"

definition SchemaType_new ::
  "((string \<times> field) list \<Rightarrow> exn + unit) \<Rightarrow> class_table \<Rightarrow> (string \<times> field) list
    \<Rightarrow> (exn + schema) option" where
  "SchemaType_new object_validate tbl attrs =
    (case validate object_validate tbl attrs of
       Inl e \<Rightarrow> Some (Inl e)
     | Inr _ \<Rightarrow>
         map_option
           (map_sum id (\<lambda>st. \<lparr>root_fields = attrs, registered = registered_type st\<rparr>))
           (register_fields_type tbl (map snd attrs)
              \<lparr>validated_type = [], registered_type = []\<rparr>))"

section \<open>Execution\<close>

datatype operation_type = QUERY | MUTATION | SUBSCRIPTION

type_synonym selection = string

datatype definition_node =
    OperationDefinitionNode operation_type "selection list"
  | FragmentDefinitionNode string

datatype pyval =
    PyNone
  | PyStr string
  | PyInstance ptype "(string \<times> pyval) list"
  | PyOpaque string

type_synonym request = "string option"
type_synonym variables = "(string \<times> string) list option"

record ctx =
  ctx_schema :: schema
  root_ast :: "definition_node list"
  ctx_request :: request
  ctx_variables :: variables

text \<open>
  What \<^verbatim>\<open>await obj.__resolve__(selections, error_collector)\<close> can do: return a value, or
  raise and leave the root instance as it then is; in both cases the collector holds
  what the call appended to it.
\<close>

datatype resolution =
    Returned pyval "exn list"
  | Raised exn pyval "exn list"

record envelope =
  errors :: "exn list option"
  data :: pyval

text \<open>
  The collaborators of \<^verbatim>\<open>execute\<close> that the source imports: the parser, the call of the
  root class with no argument, the resolution protocol (which can read the bound
  context) and \<^verbatim>\<open>json.dumps\<close> with the encoder, which raises on a value it cannot
  serialize.
\<close>

record collaborators =
  parse :: "string \<Rightarrow> exn + definition_node list"
  construct :: "ptype \<Rightarrow> exn + pyval"
  resolve :: "ctx \<Rightarrow> pyval \<Rightarrow> selection list \<Rightarrow> exn list \<Rightarrow> resolution"
  encode :: "envelope \<Rightarrow> exn + string"

text \<open>
  The state \<^verbatim>\<open>execute\<close> acts on: the value of the context variable, and the trace of
  the effects so far.
\<close>

datatype event =
    ContextSet ctx
  | ResolveCall pyval "selection list"
  | PrintExc exn
  | ContextReset

record world =
  bound :: "ctx option"
  trace :: "event list"

definition FIELD_MAP :: "(operation_type \<times> string) list" where
  "FIELD_MAP = [(QUERY, ''query''), (MUTATION, ''mutation'')]"

text \<open>
  \<^verbatim>\<open>cls.__fields__[cls.FIELD_MAP[definition.operation]].ftype.__args__[0]\<close>: two
  dictionary lookups, each raising \<^verbatim>\<open>KeyError\<close> on a missing key.
\<close>

definition root_type :: "schema \<Rightarrow> operation_type \<Rightarrow> exn + ptype" where
  "root_type S operation =
    (case map_of FIELD_MAP operation of
       None \<Rightarrow> Inl (KeyError ''OperationType'')
     | Some name \<Rightarrow>
         (case map_of (root_fields S) name of
            None \<Rightarrow> Inl (KeyError name)
          | Some field \<Rightarrow>
              (case ftype field of
                 Inl e \<Rightarrow> Inl e
               | Inr t \<Rightarrow> first_arg t)))"

text \<open>
  Lines 151 to 157: the context is reset, the envelope and the success flag are built,
  and the envelope is encoded; an exception of the encoder is raised to the caller.
\<close>

definition finish ::
  "collaborators \<Rightarrow> ctx option \<Rightarrow> pyval \<Rightarrow> exn list \<Rightarrow> world
    \<Rightarrow> (exn + (string \<times> bool) option) \<times> world" where
  "finish C token obj error_collector w =
    (let w' = w\<lparr>bound := token, trace := trace w @ [ContextReset]\<rparr>;
         return_root = \<lparr>errors = (if error_collector \<noteq> [] then Some error_collector else None),
                        data = obj\<rparr>;
         success = (if \<not> error_collector \<noteq> [] then True else False)
     in (case encode C return_root of
           Inl e \<Rightarrow> (Inl e, w')
         | Inr serialized \<Rightarrow> (Inr (Some (serialized, success)), w')))"

text \<open>
  The body of the loop for a definition that is a query or a mutation (lines 131 to
  157). An exception that is not an \<^verbatim>\<open>Exception\<close> passes the \<^verbatim>\<open>except\<close> clause.
\<close>

definition execute_operation ::
  "collaborators \<Rightarrow> schema \<Rightarrow> variables \<Rightarrow> request \<Rightarrow> definition_node list
    \<Rightarrow> operation_type \<Rightarrow> selection list \<Rightarrow> world
    \<Rightarrow> (exn + (string \<times> bool) option) \<times> world" where
  "execute_operation C S vars req document operation selections w =
    (case root_type S operation of
       Inl e \<Rightarrow> (Inl e, w)
     | Inr cls \<Rightarrow>
         (case construct C cls of
            Inl e \<Rightarrow> (Inl e, w)
          | Inr obj \<Rightarrow>
              let c = \<lparr>ctx_schema = S, root_ast = document, ctx_request = req,
                       ctx_variables = vars\<rparr>;
                  token = bound w;
                  w1 = w\<lparr>bound := Some c,
                         trace := trace w @ [ContextSet c, ResolveCall obj selections]\<rparr>
              in (case resolve C c obj selections [] of
                    Returned v error_collector \<Rightarrow> finish C token v error_collector w1
                  | Raised e inst error_collector \<Rightarrow>
                      if is_Exception e then
                        finish C token inst (error_collector @ [e])
                          (w1\<lparr>trace := trace w1 @ [PrintExc e]\<rparr>)
                      else (Inl e, w1))))"

text \<open>
  The loop over \<^verbatim>\<open>document.definitions\<close>. Falling off its end is the implicit
  \<^verbatim>\<open>return None\<close>, the result \<open>Inr None\<close>.
\<close>

fun execute_definitions ::
  "collaborators \<Rightarrow> schema \<Rightarrow> variables \<Rightarrow> request \<Rightarrow> definition_node list
    \<Rightarrow> definition_node list \<Rightarrow> world \<Rightarrow> (exn + (string \<times> bool) option) \<times> world" where
  "execute_definitions C S vars req document [] w = (Inr None, w)"
| "execute_definitions C S vars req document (FragmentDefinitionNode _ # ds) w =
     execute_definitions C S vars req document ds w"
| "execute_definitions C S vars req document (OperationDefinitionNode operation selections # ds) w =
     (if operation \<in> {QUERY, MUTATION}
      then execute_operation C S vars req document operation selections w
      else execute_definitions C S vars req document ds w)"

definition execute ::
  "collaborators \<Rightarrow> schema \<Rightarrow> string \<Rightarrow> variables \<Rightarrow> request \<Rightarrow> world
    \<Rightarrow> (exn + (string \<times> bool) option) \<times> world" where
  "execute C S query vars req w =
    (case parse C query of
       Inl e \<Rightarrow> (Inl e, w)
     | Inr document \<Rightarrow> execute_definitions C S vars req document document w)"

section \<open>Vocabulary of the properties\<close>

text \<open>A named type: a class created by one of the five metaclasses.\<close>

definition named :: "class_table \<Rightarrow> ptype \<Rightarrow> bool" where
  "named tbl t = (descriptor tbl t \<noteq> None)"

text \<open>
  The type graph: from a class to the types of its fields and of their resolver
  parameters, from a union class to its members, from an interface to its implementors,
  and from a union or list alias to its arguments.
\<close>

fun field_types :: "field \<Rightarrow> ptype set" where
  "field_types (Field t) = {t}"
| "field_types (ResolverField t ps) = insert t (snd ` set ps)"
| "field_types NonField = {}"

inductive edge :: "class_table \<Rightarrow> ptype \<Rightarrow> ptype \<Rightarrow> bool" for tbl where
  object_field: "descriptor tbl t = Some (ObjectD fs) \<Longrightarrow> f \<in> snd ` set fs \<Longrightarrow> u \<in> field_types f \<Longrightarrow> edge tbl t u"
| input_field: "descriptor tbl t = Some (InputD fs) \<Longrightarrow> f \<in> snd ` set fs \<Longrightarrow> u \<in> field_types f \<Longrightarrow> edge tbl t u"
| interface_field: "descriptor tbl t = Some (InterfaceD fs subs) \<Longrightarrow> f \<in> snd ` set fs \<Longrightarrow> u \<in> field_types f \<Longrightarrow> edge tbl t u"
| implementor: "descriptor tbl t = Some (InterfaceD fs subs) \<Longrightarrow> u \<in> set subs \<Longrightarrow> edge tbl t u"
| union_member: "descriptor tbl t = Some (UnionD ms) \<Longrightarrow> u \<in> set ms \<Longrightarrow> edge tbl t u"
| wrapper_arg: "is_union t \<or> is_list t \<Longrightarrow> py_args t = Inr ts \<Longrightarrow> u \<in> set ts \<Longrightarrow> edge tbl t u"

inductive_set reachable :: "class_table \<Rightarrow> ptype set \<Rightarrow> ptype set" for tbl roots where
  root: "t \<in> roots \<Longrightarrow> t \<in> reachable tbl roots"
| step: "t \<in> reachable tbl roots \<Longrightarrow> edge tbl t u \<Longrightarrow> u \<in> reachable tbl roots"

text \<open>The types the registrar starts from: those of the fields of the schema root.\<close>

definition root_types :: "(string \<times> field) list \<Rightarrow> ptype set" where
  "root_types attrs = \<Union> (field_types ` snd ` set attrs)"

text \<open>The type under the list and optional wrappers of an annotation.\<close>

fun unwrapped :: "ptype \<Rightarrow> ptype" where
  "unwrapped (Alias ListO [t]) = unwrapped t"
| "unwrapped (Alias UnionO [t, NoneType]) = unwrapped t"
| "unwrapped t = t"

text \<open>A definition that \<^verbatim>\<open>execute\<close> runs: an operation that is a query or a mutation.\<close>

fun executable :: "definition_node \<Rightarrow> bool" where
  "executable (OperationDefinitionNode operation _) = (operation = QUERY \<or> operation = MUTATION)"
| "executable (FragmentDefinitionNode _) = False"


fun is_ContextSet :: "event \<Rightarrow> bool" where
  "is_ContextSet (ContextSet _) = True"
| "is_ContextSet _ = False"


text \<open>
  What one resolution leaves for the envelope: the error list once the \<^verbatim>\<open>except\<close>
  clause has run, and the value of the variable \<^verbatim>\<open>obj\<close>, which is the returned value
  or, when the call raised, the root instance as the call left it. A resolution
  propagates when it raises something that is not an \<^verbatim>\<open>Exception\<close>.
\<close>

fun collected_errors :: "resolution \<Rightarrow> exn list" where
  "collected_errors (Returned v error_collector) = error_collector"
| "collected_errors (Raised e inst error_collector) = error_collector @ [e]"

fun resolved_value :: "resolution \<Rightarrow> pyval" where
  "resolved_value (Returned v error_collector) = v"
| "resolved_value (Raised e inst error_collector) = inst"

fun propagates :: "resolution \<Rightarrow> bool" where
  "propagates (Returned v error_collector) = False"
| "propagates (Raised e inst error_collector) = (\<not> is_Exception e)"

text \<open>
  The root shape: the name is \<^verbatim>\<open>query\<close> or \<^verbatim>\<open>mutation\<close>, the value is a field, its
  type is optional-wrapped, and the wrapped type is an Object type.
\<close>

fun well_formed_root :: "class_table \<Rightarrow> string \<times> field \<Rightarrow> bool" where
  "well_formed_root tbl (name, f) =
    ((name = ''query'' \<or> name = ''mutation'') \<and> is_Field f \<and>
     (case ftype f of
        Inl _ \<Rightarrow> False
      | Inr t \<Rightarrow> is_optional t \<and>
          (case first_arg t of Inl _ \<Rightarrow> False | Inr inner \<Rightarrow> is_ObjectType tbl inner)))"

section \<open>An example schema\<close>

text \<open>
  A type graph with a self-reference (class 11), mutual references (15 and 16), an
  interface (14) with two implementors, and sharing: class 15 is reached from the
  interface, from the union 17 and from class 16. Class 100 is a scalar.
\<close>

definition demo_table :: class_table where
  "demo_table =
    [(11, ObjectD [(''hello'', Field (Class 100)),
                  (''friends'', Field (Alias ListO [Alias UnionO [Class 12, NoneType]])),
                  (''me'', ResolverField (Alias UnionO [Class 11, NoneType]) [(''filter'', Class 13)]),
                  (''pet'', Field (Class 14))]),
     (12, EnumD [''A'', ''B'']),
     (13, InputD [(''kind'', Field (Class 12))]),
     (14, InterfaceD [(''name'', Field (Class 100))] [Class 15, Class 16]),
     (15, ObjectD [(''owner'', Field (Class 11)), (''either'', Field (Class 17))]),
     (16, ObjectD [(''peer'', Field (Class 15))]),
     (17, UnionD [Class 15, Class 16])]"

definition demo_root :: "(string \<times> field) list" where
  "demo_root = [(''query'', Field (Alias UnionO [Class 11, NoneType]))]"

definition demo_schema :: schema where
  "demo_schema = \<lparr>root_fields = demo_root,
     registered = [Class 11, Class 12, Class 13, Class 14, Class 15, Class 17, Class 16]\<rparr>"

definition demo_document :: "definition_node list" where
  "demo_document =
    [FragmentDefinitionNode ''f'',
     OperationDefinitionNode SUBSCRIPTION [''tick''],
     OperationDefinitionNode QUERY [''hello''],
     OperationDefinitionNode MUTATION [''bump'']]"

definition demo_collaborators :: collaborators where
  "demo_collaborators =
    \<lparr>parse = (\<lambda>q.
        if q = ''{ hello }'' then Inr demo_document
        else if q = ''{ boom }'' then Inr [OperationDefinitionNode QUERY [''boom'']]
        else if q = ''{ interrupt }'' then Inr [OperationDefinitionNode QUERY [''interrupt'']]
        else if q = ''{ blob }'' then Inr [OperationDefinitionNode QUERY [''blob'']]
        else if q = ''{ boom blob }'' then Inr [OperationDefinitionNode QUERY [''boom'', ''blob'']]
        else if q = ''mutation { bump }'' then Inr [OperationDefinitionNode MUTATION [''bump'']]
        else if q = ''fragment f'' then
          Inr [FragmentDefinitionNode ''f'', OperationDefinitionNode SUBSCRIPTION [''tick'']]
        else Inl GraphQLSyntaxError),
      construct = (\<lambda>t. Inr (PyInstance t [])),
      resolve = (\<lambda>c obj selections error_collector.
        if selections = [''boom'']
        then Raised (ResolveError ''boom'') obj error_collector
        else if selections = [''interrupt'']
        then Raised (BaseOnly ''KeyboardInterrupt'') obj error_collector
        else if selections = [''blob'']
        then Returned (PyOpaque ''socket'') error_collector
        else if selections = [''boom'', ''blob'']
        then Raised (ResolveError ''boom'') (PyOpaque ''socket'') error_collector
        else Returned (PyInstance (Class 11) [(''hello'', PyStr ''world'')]) error_collector),
      encode = (\<lambda>e. case data e of
          PyOpaque _ \<Rightarrow> Inl TypeError
        | _ \<Rightarrow> (case errors e of None \<Rightarrow> Inr ''data'' | Some _ \<Rightarrow> Inr ''errors''))\<rparr>"

definition demo_world :: world where
  "demo_world = \<lparr>bound = None, trace = []\<rparr>"

section \<open>Auxiliary notions for the proofs about the registrar\<close>

definition expand :: "class_table \<Rightarrow> ptype \<Rightarrow> exn + ptype list" where
  "expand tbl t =
    (if is_ObjectType tbl t \<or> is_InputType tbl t then param_return_types (map snd (fields_of tbl t))
     else if is_union t \<or> is_list t then py_args t
     else if is_UnionType tbl t then Inr (members tbl t)
     else if is_InterfaceType tbl t then
       map_sum id (\<lambda>ts. ts @ subclasses tbl t) (param_return_types (map snd (fields_of tbl t)))
     else Inr [])"

definition mark :: "class_table \<Rightarrow> ptype \<Rightarrow> registry \<Rightarrow> registry" where
  "mark tbl t st =
    (let st1 = st\<lparr>validated_type := validated_type st @ [t]\<rparr>
     in if named tbl t then register t st1 else st1)"

definition and_then ::
  "(exn + registry) option \<Rightarrow> (registry \<Rightarrow> (exn + registry) option) \<Rightarrow> (exn + registry) option" where
  "and_then m f = Option.bind m (\<lambda>r. case r of Inl e \<Rightarrow> Some (Inl e) | Inr st \<Rightarrow> f st)"

definition register_one :: "class_table \<Rightarrow> ptype \<Rightarrow> registry \<Rightarrow> (exn + registry) option" where
  "register_one tbl ptype st1 =
            (if is_ObjectType tbl ptype then
               (case param_return_types (map snd (fields_of tbl ptype)) of
                  Inl e \<Rightarrow> Some (Inl e)
                | Inr ts \<Rightarrow> register_types tbl ts (register ptype st1))
             else if is_union ptype \<or> is_list ptype then
               (case py_args ptype of
                  Inl e \<Rightarrow> Some (Inl e)
                | Inr ts \<Rightarrow> register_types tbl ts st1)
             else if is_UnionType tbl ptype then
               register_types tbl (members tbl ptype) (register ptype st1)
             else if is_InputType tbl ptype then
               (case param_return_types (map snd (fields_of tbl ptype)) of
                  Inl e \<Rightarrow> Some (Inl e)
                | Inr ts \<Rightarrow> register_types tbl ts (register ptype st1))
             else if is_InterfaceType tbl ptype then
               (case param_return_types (map snd (fields_of tbl ptype)) of
                  Inl e \<Rightarrow> Some (Inl e)
                | Inr ts \<Rightarrow>
                    Option.bind (register_types tbl ts (register ptype st1))
                      (\<lambda>r. case r of
                         Inl e \<Rightarrow> Some (Inl e)
                       | Inr st2 \<Rightarrow> register_types tbl (subclasses tbl ptype) st2))
             else if is_EnumType tbl ptype then Some (Inr (register ptype st1))
             else Some (Inr st1))"

definition unvisited :: "class_table \<Rightarrow> registry \<Rightarrow> nat set" where
  "unvisited tbl st = {k \<in> fst ` set tbl. Class k \<notin> set (validated_type st)}"

definition covered :: "registry \<Rightarrow> ptype \<Rightarrow> bool" where
  "covered st t = py_in t (validated_type st)"

definition reg_order :: "class_table \<Rightarrow> ((ptype list \<times> registry) \<times> (ptype list \<times> registry)) set" where
  "reg_order tbl =
     inv_image (less_than <*lex*> less_than)
       (\<lambda>(ps, st). (card (unvisited tbl st), size_list size ps))"

definition post :: "class_table \<Rightarrow> ptype list \<Rightarrow> registry \<Rightarrow> registry \<Rightarrow> bool" where
  "post tbl ps st st' \<longleftrightarrow>
     set (validated_type st) \<subseteq> set (validated_type st') \<and>
     (\<forall>t\<in>set ps. covered st' t) \<and>
     (\<forall>t u. t \<in> set (validated_type st') \<and> t \<notin> set (validated_type st) \<and> edge tbl t u
        \<longrightarrow> covered st' u) \<and>
     set (validated_type st') \<subseteq> set (validated_type st) \<union> reachable tbl (set ps) \<and>
     (distinct (validated_type st) \<longrightarrow> distinct (validated_type st')) \<and>
     (registered_type st = filter (named tbl) (validated_type st)
        \<longrightarrow> registered_type st' = filter (named tbl) (validated_type st'))"

section \<open>Equality of annotations\<close>

lemma py_eq_refl: "py_eq t t"
proof (induction t)
  case NoneType
  show ?case by simp
next
  case (Class k)
  show ?case by simp
next
  case (Alias oo ts)
  have a: "list_all (\<lambda>x. list_ex (\<lambda>y. py_eq x y) ts) ts"
    unfolding list_all_iff list_ex_iff using Alias.IH by blast
  have b: "list_all (\<lambda>y. list_ex (\<lambda>x. py_eq x y) ts) ts"
    unfolding list_all_iff list_ex_iff using Alias.IH by blast
  have c: "list_all2 py_eq ts ts"
    unfolding list_all2_conv_all_nth using Alias.IH by simp
  show ?case using a b c by simp
qed

lemma py_eq_sym: "py_eq a b \<Longrightarrow> py_eq b a"
proof (induction a arbitrary: b)
  case NoneType
  then show ?case by (cases b) simp_all
next
  case (Class k)
  then show ?case by (cases b) simp_all
next
  case (Alias oo xs)
  from Alias.prems obtain ys where b: "b = Alias oo ys" by (cases b) auto
  show ?case
  proof (cases "oo = UnionO")
    case True
    from Alias.prems have
      f: "\<forall>x\<in>set xs. \<exists>y\<in>set ys. py_eq x y" and g: "\<forall>y\<in>set ys. \<exists>x\<in>set xs. py_eq x y"
      unfolding b using True by (simp_all add: list_all_iff list_ex_iff)
    have "\<forall>y\<in>set ys. \<exists>x\<in>set xs. py_eq y x" using g Alias.IH by blast
    moreover have "\<forall>x\<in>set xs. \<exists>y\<in>set ys. py_eq y x" using f Alias.IH by blast
    ultimately show ?thesis unfolding b using True by (simp add: list_all_iff list_ex_iff)
  next
    case False
    from Alias.prems have l: "list_all2 py_eq xs ys" unfolding b using False by simp
    have "list_all2 py_eq ys xs"
      unfolding list_all2_conv_all_nth
    proof (intro conjI allI impI)
      show "length ys = length xs" using l by (simp add: list_all2_lengthD)
      fix i assume "i < length ys"
      then have i: "i < length xs" using l by (simp add: list_all2_lengthD)
      then have "py_eq (xs ! i) (ys ! i)" using l by (simp add: list_all2_conv_all_nth)
      moreover have "xs ! i \<in> set xs" using i by simp
      ultimately show "py_eq (ys ! i) (xs ! i)" using Alias.IH by blast
    qed
    then show ?thesis unfolding b using False by simp
  qed
qed

lemma py_eq_trans: "py_eq a b \<Longrightarrow> py_eq b c \<Longrightarrow> py_eq a c"
proof (induction a arbitrary: b c)
  case NoneType
  then show ?case by (cases b; cases c) simp_all
next
  case (Class k)
  then show ?case by (cases b; cases c) simp_all
next
  case (Alias oo xs)
  from Alias.prems(1) obtain ys where b: "b = Alias oo ys" by (cases b) auto
  from Alias.prems(2) obtain zs where c: "c = Alias oo zs" unfolding b by (cases c) auto
  show ?case
  proof (cases "oo = UnionO")
    case True
    from Alias.prems(1) have
      f1: "\<forall>x\<in>set xs. \<exists>y\<in>set ys. py_eq x y" and g1: "\<forall>y\<in>set ys. \<exists>x\<in>set xs. py_eq x y"
      unfolding b using True by (simp_all add: list_all_iff list_ex_iff)
    from Alias.prems(2) have
      f2: "\<forall>y\<in>set ys. \<exists>z\<in>set zs. py_eq y z" and g2: "\<forall>z\<in>set zs. \<exists>y\<in>set ys. py_eq y z"
      unfolding b c using True by (simp_all add: list_all_iff list_ex_iff)
    have "\<forall>x\<in>set xs. \<exists>z\<in>set zs. py_eq x z"
    proof
      fix x assume x: "x \<in> set xs"
      with f1 obtain y where y: "y \<in> set ys" "py_eq x y" by blast
      with f2 obtain z where z: "z \<in> set zs" "py_eq y z" by blast
      from Alias.IH[OF x y(2) z(2)] z(1) show "\<exists>z\<in>set zs. py_eq x z" by blast
    qed
    moreover have "\<forall>z\<in>set zs. \<exists>x\<in>set xs. py_eq x z"
    proof
      fix z assume z: "z \<in> set zs"
      with g2 obtain y where y: "y \<in> set ys" "py_eq y z" by blast
      with g1 obtain x where x: "x \<in> set xs" "py_eq x y" by blast
      from Alias.IH[OF x(1) x(2) y(2)] x(1) show "\<exists>x\<in>set xs. py_eq x z" by blast
    qed
    ultimately show ?thesis unfolding c using True by (simp add: list_all_iff list_ex_iff)
  next
    case False
    from Alias.prems(1) have l1: "list_all2 py_eq xs ys" unfolding b using False by simp
    from Alias.prems(2) have l2: "list_all2 py_eq ys zs" unfolding b c using False by simp
    have "list_all2 py_eq xs zs"
      unfolding list_all2_conv_all_nth
    proof (intro conjI allI impI)
      show "length xs = length zs" using l1 l2 by (simp add: list_all2_lengthD)
      fix i assume i: "i < length xs"
      then have "py_eq (xs ! i) (ys ! i)" using l1 by (simp add: list_all2_conv_all_nth)
      moreover have "py_eq (ys ! i) (zs ! i)"
        using l1 l2 i by (simp add: list_all2_conv_all_nth)
      moreover have "xs ! i \<in> set xs" using i by simp
      ultimately show "py_eq (xs ! i) (zs ! i)" using Alias.IH by blast
    qed
    then show ?thesis unfolding c using False by simp
  qed
qed

lemma py_eq_Class: "py_eq (Class k) t \<longleftrightarrow> t = Class k"
  by (cases t) auto

lemma py_eq_Class2: "py_eq t (Class k) \<longleftrightarrow> t = Class k"
  by (cases t) auto

lemma py_in_iff: "py_in t xs \<longleftrightarrow> (\<exists>x\<in>set xs. py_eq t x)"
  by (simp add: py_in_def list_ex_iff)

lemma py_in_member: "t \<in> set xs \<Longrightarrow> py_in t xs"
  unfolding py_in_iff using py_eq_refl by blast

lemma py_in_Class: "py_in (Class k) xs \<longleftrightarrow> Class k \<in> set xs"
  unfolding py_in_iff by (auto simp: py_eq_Class)

section \<open>The registrar returns, and what it leaves\<close>

lemma register_types_Nil: "register_types tbl [] st = Some (Inr st)"
  by (subst register_types.simps) simp

lemma and_then_simps [simp]:
  "and_then None f = None"
  "and_then (Some (Inl e)) f = Some (Inl e)"
  "and_then (Some (Inr st)) f = f st"
  by (simp_all add: and_then_def)

lemma and_then_assoc: "and_then (and_then m f) g = and_then m (\<lambda>st. and_then (f st) g)"
  by (cases m) (auto simp: and_then_def split: sum.splits)

lemma register_types_Cons:
  "register_types tbl (t # rest) st =
    (if py_in t (validated_type st) then register_types tbl rest st
     else and_then (register_one tbl t (st\<lparr>validated_type := validated_type st @ [t]\<rparr>))
            (register_types tbl rest))"
  by (subst register_types.simps) (simp add: register_one_def and_then_def Let_def)

lemma register_types_append:
  "register_types tbl (xs @ ys) st = and_then (register_types tbl xs st) (register_types tbl ys)"
proof (induction xs arbitrary: st)
  case Nil
  show ?case by (simp add: register_types_Nil)
next
  case (Cons x xs)
  have ih: "register_types tbl (xs @ ys) =
      (\<lambda>st. and_then (register_types tbl xs st) (register_types tbl ys))"
    by (rule ext) (rule Cons.IH)
  show ?case
    by (simp add: register_types_Cons ih and_then_assoc)
qed

lemma kinds_disjoint:
  "is_ObjectType tbl t \<Longrightarrow> \<not> is_UnionType tbl t \<and> \<not> is_InputType tbl t \<and> \<not> is_InterfaceType tbl t \<and> \<not> is_EnumType tbl t \<and> \<not> is_union t \<and> \<not> is_list t \<and> named tbl t"
  "is_UnionType tbl t \<Longrightarrow> \<not> is_ObjectType tbl t \<and> \<not> is_InputType tbl t \<and> \<not> is_InterfaceType tbl t \<and> \<not> is_EnumType tbl t \<and> \<not> is_union t \<and> \<not> is_list t \<and> named tbl t"
  "is_InputType tbl t \<Longrightarrow> \<not> is_ObjectType tbl t \<and> \<not> is_UnionType tbl t \<and> \<not> is_InterfaceType tbl t \<and> \<not> is_EnumType tbl t \<and> \<not> is_union t \<and> \<not> is_list t \<and> named tbl t"
  "is_InterfaceType tbl t \<Longrightarrow> \<not> is_ObjectType tbl t \<and> \<not> is_UnionType tbl t \<and> \<not> is_InputType tbl t \<and> \<not> is_EnumType tbl t \<and> \<not> is_union t \<and> \<not> is_list t \<and> named tbl t"
  "is_EnumType tbl t \<Longrightarrow> \<not> is_ObjectType tbl t \<and> \<not> is_UnionType tbl t \<and> \<not> is_InputType tbl t \<and> \<not> is_InterfaceType tbl t \<and> \<not> is_union t \<and> \<not> is_list t \<and> named tbl t"
  "is_union t \<or> is_list t \<Longrightarrow> \<not> named tbl t"
  by (cases t; auto simp: is_ObjectType_def is_UnionType_def is_InputType_def is_InterfaceType_def
      is_EnumType_def named_def descriptor_def split: option.splits decl.splits)+

lemma named_cases:
  "named tbl t = (is_ObjectType tbl t \<or> is_UnionType tbl t \<or> is_InputType tbl t \<or> is_InterfaceType tbl t \<or> is_EnumType tbl t)"
  by (auto simp: is_ObjectType_def is_UnionType_def is_InputType_def is_InterfaceType_def
      is_EnumType_def named_def split: option.splits decl.splits)

lemma register_one_expand:
  "register_one tbl t (st\<lparr>validated_type := validated_type st @ [t]\<rparr>) =
     (case expand tbl t of Inl e \<Rightarrow> Some (Inl e)
      | Inr cs \<Rightarrow> register_types tbl cs (mark tbl t st))"
proof -
  let ?st1 = "st\<lparr>validated_type := validated_type st @ [t]\<rparr>"
  consider (obj) "is_ObjectType tbl t" | (wrap) "is_union t \<or> is_list t"
    | (un) "is_UnionType tbl t" | (inp) "is_InputType tbl t" | (iface) "is_InterfaceType tbl t"
    | (enum) "is_EnumType tbl t" | (other) "\<not> named tbl t" "\<not> (is_union t \<or> is_list t)"
    unfolding named_cases by blast
  then show ?thesis
  proof cases
    case obj
    note d = kinds_disjoint(1)[OF obj]
    have m: "mark tbl t st = register t ?st1" using d by (simp add: mark_def)
    show ?thesis using obj d
      by (simp add: register_one_def expand_def m split: sum.splits)
  next
    case wrap
    note d = kinds_disjoint(6)[OF wrap]
    have m: "mark tbl t st = ?st1" using d by (simp add: mark_def)
    have n: "\<not> is_ObjectType tbl t" "\<not> is_InputType tbl t" using d by (simp_all add: named_cases)
    show ?thesis using wrap n
      by (simp add: register_one_def expand_def m split: sum.splits)
  next
    case un
    note d = kinds_disjoint(2)[OF un]
    have m: "mark tbl t st = register t ?st1" using d by (simp add: mark_def)
    show ?thesis using un d
      by (simp add: register_one_def expand_def m)
  next
    case inp
    note d = kinds_disjoint(3)[OF inp]
    have m: "mark tbl t st = register t ?st1" using d by (simp add: mark_def)
    show ?thesis using inp d
      by (simp add: register_one_def expand_def m split: sum.splits)
  next
    case iface
    note d = kinds_disjoint(4)[OF iface]
    have m: "mark tbl t st = register t ?st1" using d by (simp add: mark_def)
    show ?thesis
    proof (cases "param_return_types (map snd (fields_of tbl t))")
      case (Inl e)
      then show ?thesis using iface d by (simp add: register_one_def expand_def)
    next
      case (Inr ts)
      then show ?thesis using iface d
        by (simp add: register_one_def expand_def m register_types_append and_then_def)
    qed
  next
    case enum
    note d = kinds_disjoint(5)[OF enum]
    have m: "mark tbl t st = register t ?st1" using d by (simp add: mark_def)
    show ?thesis using enum d
      by (simp add: register_one_def expand_def m register_types_Nil)
  next
    case other
    have m: "mark tbl t st = ?st1" using other(1) by (simp add: mark_def)
    have n: "\<not> is_ObjectType tbl t" "\<not> is_InputType tbl t" "\<not> is_UnionType tbl t"
      "\<not> is_InterfaceType tbl t" "\<not> is_EnumType tbl t"
      using other(1) by (simp_all add: named_cases)
    show ?thesis using other(2) n
      by (simp add: register_one_def expand_def m register_types_Nil)
  qed
qed

lemma param_return_types_set:
  "param_return_types fs = Inr ts \<Longrightarrow> set ts = \<Union> (field_types ` set fs)"
proof (induction fs arbitrary: ts rule: param_return_types.induct)
  case 1
  then show ?case by simp
next
  case (2 t fs)
  then obtain b where b: "param_return_types fs = Inr b" "ts = t # b"
    by (cases "param_return_types fs") auto
  from "2.IH"[OF b(1)] b(2) show ?case by simp
next
  case (3 t ps fs)
  then obtain b where b: "param_return_types fs = Inr b" "ts = t # map snd ps @ b"
    by (cases "param_return_types fs") auto
  from "3.IH"[OF b(1)] b(2) show ?case by (simp add: Un_assoc)
next
  case (4 fs)
  then show ?case by simp
qed

lemma edge_expand:
  assumes "expand tbl t = Inr cs"
  shows "edge tbl t u \<longleftrightarrow> u \<in> set cs"
proof
  assume "edge tbl t u"
  then show "u \<in> set cs"
  proof cases
    case (object_field fs f)
    have "param_return_types (map snd fs) = Inr cs"
      using assms object_field(1) by (simp add: expand_def is_ObjectType_def fields_of_def)
    from param_return_types_set[OF this] object_field(2,3) show ?thesis by auto
  next
    case (input_field fs f)
    have "param_return_types (map snd fs) = Inr cs"
      using assms input_field(1)
      by (simp add: expand_def is_ObjectType_def is_InputType_def fields_of_def)
    from param_return_types_set[OF this] input_field(2,3) show ?thesis by auto
  next
    case (interface_field fs subs f)
    then have k: "is_InterfaceType tbl t" by (simp add: is_InterfaceType_def)
    have "map_sum id (\<lambda>ts. ts @ subs) (param_return_types (map snd fs)) = Inr cs"
      using assms interface_field(1) kinds_disjoint(4)[OF k] k
      by (simp add: expand_def fields_of_def subclasses_def)
    then obtain ts where ts: "param_return_types (map snd fs) = Inr ts" "cs = ts @ subs"
      by (cases "param_return_types (map snd fs)") auto
    from param_return_types_set[OF ts(1)] interface_field(2,3) have "u \<in> set ts" by auto
    with ts(2) show ?thesis by simp
  next
    case (implementor fs subs)
    then have k: "is_InterfaceType tbl t" by (simp add: is_InterfaceType_def)
    have "map_sum id (\<lambda>ts. ts @ subs) (param_return_types (map snd fs)) = Inr cs"
      using assms implementor(1) kinds_disjoint(4)[OF k] k
      by (simp add: expand_def fields_of_def subclasses_def)
    then obtain ts where "cs = ts @ subs"
      by (cases "param_return_types (map snd fs)") auto
    with implementor(2) show ?thesis by simp
  next
    case (union_member ms)
    then have k: "is_UnionType tbl t" by (simp add: is_UnionType_def)
    have "cs = ms"
      using assms union_member(1) kinds_disjoint(2)[OF k] k
      by (simp add: expand_def members_def)
    with union_member(2) show ?thesis by simp
  next
    case (wrapper_arg ts)
    then have "\<not> named tbl t" using kinds_disjoint(6) by blast
    then have "py_args t = Inr cs" using assms wrapper_arg(1)
      by (simp add: expand_def named_cases)
    with wrapper_arg(2,3) show ?thesis by simp
  qed
next
  assume u: "u \<in> set cs"
  consider (obj) "is_ObjectType tbl t" | (inp) "is_InputType tbl t" | (wrap) "is_union t \<or> is_list t"
    | (un) "is_UnionType tbl t" | (iface) "is_InterfaceType tbl t"
    | (other) "\<not> is_ObjectType tbl t" "\<not> is_InputType tbl t" "\<not> (is_union t \<or> is_list t)"
        "\<not> is_UnionType tbl t" "\<not> is_InterfaceType tbl t"
    by blast
  then show "edge tbl t u"
  proof cases
    case obj
    then obtain fs where d: "descriptor tbl t = Some (ObjectD fs)"
      by (auto simp: is_ObjectType_def split: option.splits decl.splits)
    with assms obj have "param_return_types (map snd fs) = Inr cs"
      by (simp add: expand_def fields_of_def)
    from param_return_types_set[OF this] u obtain f where "f \<in> snd ` set fs" "u \<in> field_types f"
      by auto
    with d show ?thesis by (rule edge.object_field)
  next
    case inp
    then obtain fs where d: "descriptor tbl t = Some (InputD fs)"
      by (auto simp: is_InputType_def split: option.splits decl.splits)
    with assms inp have "param_return_types (map snd fs) = Inr cs"
      by (simp add: expand_def fields_of_def)
    from param_return_types_set[OF this] u obtain f where "f \<in> snd ` set fs" "u \<in> field_types f"
      by auto
    with d show ?thesis by (rule edge.input_field)
  next
    case wrap
    then have "\<not> named tbl t" using kinds_disjoint(6) by blast
    with assms wrap have "py_args t = Inr cs" by (auto simp: expand_def named_cases)
    with u wrap show ?thesis by (auto intro: edge.wrapper_arg)
  next
    case un
    then obtain ms where d: "descriptor tbl t = Some (UnionD ms)"
      by (auto simp: is_UnionType_def split: option.splits decl.splits)
    with assms un kinds_disjoint(2)[OF un] have "cs = ms"
      by (simp add: expand_def members_def)
    with u d show ?thesis by (auto intro: edge.union_member)
  next
    case iface
    then obtain fs subs where d: "descriptor tbl t = Some (InterfaceD fs subs)"
      by (auto simp: is_InterfaceType_def split: option.splits decl.splits)
    with assms iface kinds_disjoint(4)[OF iface] obtain ts where
      ts: "param_return_types (map snd fs) = Inr ts" "cs = ts @ subs"
      by (cases "param_return_types (map snd fs)") (auto simp: expand_def fields_of_def subclasses_def)
    from u ts(2) consider "u \<in> set ts" | "u \<in> set subs" by auto
    then show ?thesis
    proof cases
      case 1
      with param_return_types_set[OF ts(1)] obtain f where "f \<in> snd ` set fs" "u \<in> field_types f"
        by auto
      with d show ?thesis by (rule edge.interface_field)
    next
      case 2
      with d show ?thesis by (rule edge.implementor)
    qed
  next
    case other
    with assms have "cs = []" by (simp add: expand_def)
    with u show ?thesis by simp
  qed
qed

lemma wf_reg_order: "wf (reg_order tbl)"
  unfolding reg_order_def by (intro wf_inv_image wf_lex_prod wf_less_than)

lemma reg_order_iff:
  "((ps', st'), (ps, st)) \<in> reg_order tbl \<longleftrightarrow>
     card (unvisited tbl st') < card (unvisited tbl st) \<or>
     card (unvisited tbl st') = card (unvisited tbl st) \<and> size_list size ps' < size_list size ps"
  by (simp add: reg_order_def)

lemma finite_unvisited: "finite (unvisited tbl st)"
  by (simp add: unvisited_def)

lemma unvisited_mono:
  "set (validated_type st) \<subseteq> set (validated_type st') \<Longrightarrow>
   card (unvisited tbl st') \<le> card (unvisited tbl st)"
  by (rule card_mono[OF finite_unvisited]) (auto simp: unvisited_def)

lemma validated_mark [simp]: "validated_type (mark tbl t st) = validated_type st @ [t]"
  by (simp add: mark_def register_def Let_def)

lemma registered_mark [simp]:
  "registered_type (mark tbl t st) = registered_type st @ (if named tbl t then [t] else [])"
  by (simp add: mark_def register_def Let_def)

lemma named_Class: "named tbl (Class k) \<longleftrightarrow> k \<in> fst ` set tbl"
  by (simp add: named_def descriptor_def map_of_eq_None_iff)

lemma named_is_Class: "named tbl t \<Longrightarrow> \<exists>k. t = Class k"
  by (cases t) (auto simp: named_def descriptor_def)

lemma mark_decreases:
  assumes "\<not> py_in t (validated_type st)" and "named tbl t"
  shows "card (unvisited tbl (mark tbl t st)) < card (unvisited tbl st)"
proof -
  from assms(2) obtain k where k: "t = Class k" using named_is_Class by blast
  with assms have "k \<in> unvisited tbl st" by (simp add: unvisited_def named_Class py_in_Class)
  moreover have "k \<notin> unvisited tbl (mark tbl t st)" by (simp add: unvisited_def k)
  moreover have "unvisited tbl (mark tbl t st) \<subseteq> unvisited tbl st"
    by (auto simp: unvisited_def)
  ultimately have "unvisited tbl (mark tbl t st) \<subset> unvisited tbl st" by blast
  then show ?thesis by (rule psubset_card_mono[OF finite_unvisited])
qed

lemma expand_unnamed_size:
  assumes "expand tbl t = Inr cs" and "\<not> named tbl t"
  shows "size_list size cs < Suc (size t)"
proof (cases t)
  case (Alias oo ts)
  show ?thesis
  proof (cases ts)
    case Nil
    with assms Alias show ?thesis by (auto simp: expand_def named_cases split: if_splits)
  next
    case (Cons x xs)
    with assms Alias show ?thesis by (auto simp: expand_def named_cases split: if_splits)
  qed
qed (use assms in \<open>auto simp: expand_def named_cases split: if_splits\<close>)

lemma children_smaller:
  assumes "\<not> py_in t (validated_type st)" and "expand tbl t = Inr cs"
  shows "((cs, mark tbl t st), (t # rest, st)) \<in> reg_order tbl"
proof (cases "named tbl t")
  case True
  then show ?thesis using mark_decreases[OF assms(1)] by (simp add: reg_order_iff)
next
  case False
  have "card (unvisited tbl (mark tbl t st)) \<le> card (unvisited tbl st)"
    by (rule unvisited_mono) auto
  moreover have "size_list size cs < size_list size (t # rest)"
    using expand_unnamed_size[OF assms(2) False] by simp
  ultimately show ?thesis by (auto simp: reg_order_iff)
qed

lemma rest_smaller:
  assumes "set (validated_type st) \<subseteq> set (validated_type st')"
  shows "((rest, st'), (t # rest, st)) \<in> reg_order tbl"
  using unvisited_mono[OF assms, of tbl] by (auto simp: reg_order_iff)

lemma reachable_mono: "A \<subseteq> B \<Longrightarrow> reachable tbl A \<subseteq> reachable tbl B"
proof
  fix x assume "A \<subseteq> B" "x \<in> reachable tbl A"
  from this(2) this(1) show "x \<in> reachable tbl B"
    by induction (auto intro: reachable.intros)
qed

lemma reachable_children:
  assumes "\<And>u. u \<in> C \<Longrightarrow> edge tbl t u" and "t \<in> A"
  shows "reachable tbl C \<subseteq> reachable tbl A"
proof
  fix x assume "x \<in> reachable tbl C"
  then show "x \<in> reachable tbl A"
    by induction (auto intro: reachable.intros assms)
qed

lemma covered_iff: "covered st t \<longleftrightarrow> (\<exists>v\<in>set (validated_type st). py_eq t v)"
  by (simp add: covered_def py_in_iff)

lemma covered_member: "t \<in> set (validated_type st) \<Longrightarrow> covered st t"
  by (simp add: covered_def py_in_member)

lemma covered_mono:
  "set (validated_type st) \<subseteq> set (validated_type st') \<Longrightarrow> covered st t \<Longrightarrow> covered st' t"
  unfolding covered_iff by blast

lemma post_Nil: "post tbl [] st st"
  by (auto simp: post_def)

lemma postI:
  assumes "set (validated_type st) \<subseteq> set (validated_type st')"
    and "\<And>t. t \<in> set ps \<Longrightarrow> covered st' t"
    and "\<And>t u. t \<in> set (validated_type st') \<Longrightarrow> t \<notin> set (validated_type st) \<Longrightarrow> edge tbl t u
        \<Longrightarrow> covered st' u"
    and "set (validated_type st') \<subseteq> set (validated_type st) \<union> reachable tbl (set ps)"
    and "distinct (validated_type st) \<Longrightarrow> distinct (validated_type st')"
    and "registered_type st = filter (named tbl) (validated_type st)
        \<Longrightarrow> registered_type st' = filter (named tbl) (validated_type st')"
  shows "post tbl ps st st'"
  unfolding post_def using assms by blast

lemma post_mono: "post tbl ps st st' \<Longrightarrow> set (validated_type st) \<subseteq> set (validated_type st')"
  by (simp add: post_def)

lemma post_roots: "post tbl ps st st' \<Longrightarrow> t \<in> set ps \<Longrightarrow> covered st' t"
  by (simp add: post_def)

lemma post_closed:
  "post tbl ps st st' \<Longrightarrow> t \<in> set (validated_type st') \<Longrightarrow> t \<notin> set (validated_type st)
    \<Longrightarrow> edge tbl t u \<Longrightarrow> covered st' u"
  unfolding post_def by blast

lemma post_sound:
  "post tbl ps st st' \<Longrightarrow> set (validated_type st') \<subseteq> set (validated_type st) \<union> reachable tbl (set ps)"
  by (simp add: post_def)

lemma post_distinct:
  "post tbl ps st st' \<Longrightarrow> distinct (validated_type st) \<Longrightarrow> distinct (validated_type st')"
  by (simp add: post_def)

lemma post_registered:
  "post tbl ps st st' \<Longrightarrow> registered_type st = filter (named tbl) (validated_type st)
    \<Longrightarrow> registered_type st' = filter (named tbl) (validated_type st')"
  by (simp add: post_def)

lemma post_skip:
  assumes c: "py_in t (validated_type st)" and p: "post tbl rest st st'"
  shows "post tbl (t # rest) st st'"
proof (rule postI)
  show "set (validated_type st) \<subseteq> set (validated_type st')" by (rule post_mono[OF p])
  show "covered st' x" if "x \<in> set (t # rest)" for x
  proof (cases "x = t")
    case True
    have "covered st t" using c by (simp add: covered_def)
    then show ?thesis unfolding True by (rule covered_mono[OF post_mono[OF p]])
  next
    case False
    with that have "x \<in> set rest" by simp
    then show ?thesis by (rule post_roots[OF p])
  qed
  show "covered st' u"
    if "x \<in> set (validated_type st')" "x \<notin> set (validated_type st)" "edge tbl x u" for x u
    using post_closed[OF p that] .
  have "reachable tbl (set rest) \<subseteq> reachable tbl (set (t # rest))"
    by (rule reachable_mono) auto
  with post_sound[OF p]
  show "set (validated_type st') \<subseteq> set (validated_type st) \<union> reachable tbl (set (t # rest))"
    by blast
  show "distinct (validated_type st')" if "distinct (validated_type st)"
    using post_distinct[OF p that] .
  show "registered_type st' = filter (named tbl) (validated_type st')"
    if "registered_type st = filter (named tbl) (validated_type st)"
    using post_registered[OF p that] .
qed

lemma post_visit:
  assumes new: "\<not> py_in t (validated_type st)"
    and ex: "expand tbl t = Inr cs"
    and p1: "post tbl cs (mark tbl t st) st2"
    and p2: "post tbl rest st2 st3"
  shows "post tbl (t # rest) st st3"
proof (rule postI)
  let ?V = "set (validated_type st)" and ?V2 = "set (validated_type st2)"
    and ?V3 = "set (validated_type st3)"
  have fresh: "t \<notin> ?V" using new py_in_member by blast
  have a1: "insert t ?V \<subseteq> ?V2" using post_mono[OF p1] by simp
  have d1: "?V2 \<subseteq> insert t ?V \<union> reachable tbl (set cs)" using post_sound[OF p1] by simp
  have a2: "?V2 \<subseteq> ?V3" by (rule post_mono[OF p2])
  have d2: "?V3 \<subseteq> ?V2 \<union> reachable tbl (set rest)" by (rule post_sound[OF p2])
  have e: "\<And>u. edge tbl t u \<longleftrightarrow> u \<in> set cs" using edge_expand[OF ex] by simp
  have r1: "reachable tbl (set cs) \<subseteq> reachable tbl (set (t # rest))"
    by (rule reachable_children[where t = t]) (simp_all add: e)
  have r2: "reachable tbl (set rest) \<subseteq> reachable tbl (set (t # rest))"
    by (rule reachable_mono) auto
  have r3: "t \<in> reachable tbl (set (t # rest))" by (simp add: reachable.root)
  show "?V \<subseteq> ?V3" using a1 a2 by blast
  show "covered st3 x" if "x \<in> set (t # rest)" for x
  proof (cases "x = t")
    case True
    have "t \<in> ?V3" using a1 a2 by blast
    then show ?thesis unfolding True by (rule covered_member)
  next
    case False
    with that have "x \<in> set rest" by simp
    then show ?thesis by (rule post_roots[OF p2])
  qed
  show "covered st3 u" if h: "x \<in> ?V3" "x \<notin> ?V" "edge tbl x u" for x u
  proof (cases "x = t")
    case True
    with h(3) have "u \<in> set cs" by (simp add: e)
    then have "covered st2 u" by (rule post_roots[OF p1])
    then show ?thesis by (rule covered_mono[OF a2])
  next
    case False
    show ?thesis
    proof (cases "x \<in> ?V2")
      case True
      have "x \<notin> set (validated_type (mark tbl t st))" using False h(2) by simp
      from post_closed[OF p1 True this h(3)] show ?thesis by (rule covered_mono[OF a2])
    next
      case False
      from post_closed[OF p2 h(1) False h(3)] show ?thesis .
    qed
  qed
  have "?V3 \<subseteq> insert t ?V \<union> reachable tbl (set cs) \<union> reachable tbl (set rest)"
    using d1 d2 by blast
  then show "?V3 \<subseteq> ?V \<union> reachable tbl (set (t # rest))"
    using r1 r2 r3 by blast
  show "distinct (validated_type st3)" if d: "distinct (validated_type st)"
  proof -
    have "distinct (validated_type (mark tbl t st))" using d fresh by simp
    from post_distinct[OF p2 post_distinct[OF p1 this]] show ?thesis .
  qed
  show "registered_type st3 = filter (named tbl) (validated_type st3)"
    if r: "registered_type st = filter (named tbl) (validated_type st)"
  proof -
    have "registered_type (mark tbl t st) = filter (named tbl) (validated_type (mark tbl t st))"
      using r by simp
    from post_registered[OF p2 post_registered[OF p1 this]] show ?thesis .
  qed
qed

lemma register_types_step:
  "register_types tbl (t # rest) st =
    (if py_in t (validated_type st) then register_types tbl rest st
     else case expand tbl t of
            Inl e \<Rightarrow> Some (Inl e)
          | Inr cs \<Rightarrow> and_then (register_types tbl cs (mark tbl t st)) (register_types tbl rest))"
  by (simp add: register_types_Cons register_one_expand split: sum.splits)

lemma register_types_spec:
  "\<exists>r. register_types tbl ps st = Some r \<and> (\<forall>st'. r = Inr st' \<longrightarrow> post tbl ps st st')"
proof -
  define x where "x = (ps, st)"
  have "\<exists>r. register_types tbl (fst x) (snd x) = Some r \<and>
          (\<forall>st'. r = Inr st' \<longrightarrow> post tbl (fst x) (snd x) st')"
    using wf_reg_order[of tbl]
  proof (induction x rule: wf_induct_rule)
    case (less x)
    obtain ps st where x: "x = (ps, st)" by (cases x)
    have IH: "\<exists>r. register_types tbl ps' st' = Some r \<and>
          (\<forall>s. r = Inr s \<longrightarrow> post tbl ps' st' s)"
      if "((ps', st'), (ps, st)) \<in> reg_order tbl" for ps' st'
      using less[of "(ps', st')"] that unfolding x by simp
    have "\<exists>r. register_types tbl ps st = Some r \<and> (\<forall>st'. r = Inr st' \<longrightarrow> post tbl ps st st')"
    proof (cases ps)
      case Nil
      then show ?thesis by (simp add: register_types_Nil post_Nil)
    next
      case (Cons t rest)
      show ?thesis
      proof (cases "py_in t (validated_type st)")
        case True
        have "((rest, st), (ps, st)) \<in> reg_order tbl"
          unfolding Cons by (rule rest_smaller) simp
        from IH[OF this] obtain r where
          r: "register_types tbl rest st = Some r" "\<forall>st'. r = Inr st' \<longrightarrow> post tbl rest st st'"
          by blast
        have "register_types tbl ps st = Some r"
          unfolding Cons using True r(1) by (simp add: register_types_step)
        moreover have "\<forall>st'. r = Inr st' \<longrightarrow> post tbl ps st st'"
          unfolding Cons using r(2) post_skip[OF True] by blast
        ultimately show ?thesis by blast
      next
        case False
        show ?thesis
        proof (cases "expand tbl t")
          case (Inl e)
          with False show ?thesis unfolding Cons by (simp add: register_types_step)
        next
          case (Inr cs)
          have "((cs, mark tbl t st), (ps, st)) \<in> reg_order tbl"
            unfolding Cons by (rule children_smaller[OF False Inr])
          from IH[OF this] obtain r1 where
            r1: "register_types tbl cs (mark tbl t st) = Some r1"
              "\<forall>st'. r1 = Inr st' \<longrightarrow> post tbl cs (mark tbl t st) st'"
            by blast
          show ?thesis
          proof (cases r1)
            case (Inl e)
            with False Inr r1(1) show ?thesis unfolding Cons by (simp add: register_types_step)
          next
            case r1r: (Inr st2)
            with r1 have p1: "post tbl cs (mark tbl t st) st2" by simp
            have "set (validated_type st) \<subseteq> set (validated_type st2)"
              using post_mono[OF p1] by simp
            then have "((rest, st2), (ps, st)) \<in> reg_order tbl"
              unfolding Cons by (rule rest_smaller)
            from IH[OF this] obtain r2 where
              r2: "register_types tbl rest st2 = Some r2"
                "\<forall>st'. r2 = Inr st' \<longrightarrow> post tbl rest st2 st'"
              by blast
            have "register_types tbl ps st = Some r2"
              unfolding Cons using False Inr r1(1) r1r r2(1) by (simp add: register_types_step)
            moreover have "\<forall>st'. r2 = Inr st' \<longrightarrow> post tbl ps st st'"
              unfolding Cons using r2(2) post_visit[OF False Inr p1] by blast
            ultimately show ?thesis by blast
          qed
        qed
      qed
    qed
    then show ?case unfolding x by simp
  qed
  then show ?thesis by (simp add: x_def)
qed

section \<open>Termination of the registrar\<close>

text \<open>
  C2: \<^verbatim>\<open>register_types\<close> and \<^verbatim>\<open>register_fields_type\<close> return (with a registry or with
  an exception) on every class table, every list of candidate types and every starting
  registry, cyclic and self-referential type graphs included. The proof rests on the
  order of the two steps of the loop: a candidate that is already in
  \<^verbatim>\<open>validated_type\<close> is skipped, and a new one is appended to \<^verbatim>\<open>validated_type\<close>
  before the registrar descends into it, so each descent either visits one more class
  of the table or works on the smaller arguments of an alias.
\<close>

theorem registration_terminates:
  "(\<exists>r. register_types tbl types st = Some r) \<and>
   (\<exists>r. register_fields_type tbl fs st = Some r)"
proof
  show "\<exists>r. register_types tbl types st = Some r"
    using register_types_spec[of tbl types st] by blast
  show "\<exists>r. register_fields_type tbl fs st = Some r"
  proof (cases "param_return_types fs")
    case (Inl e)
    then show ?thesis by (simp add: register_fields_type_def)
  next
    case (Inr ts)
    then show ?thesis
      using register_types_spec[of tbl ts st] by (auto simp: register_fields_type_def)
  qed
qed

section \<open>The registry of a schema\<close>

lemma py_args_Alias: "py_args (Alias oo ys) = Inr ts \<longleftrightarrow> ys \<noteq> [] \<and> ts = ys"
  by (cases ys) auto

lemma descriptor_Class: "descriptor tbl t = Some d \<Longrightarrow> \<exists>k. t = Class k"
  by (cases t) (simp_all add: descriptor_def)

lemma edge_py_eq:
  assumes eq: "py_eq t t'" and e: "edge tbl t u"
  shows "\<exists>u'. edge tbl t' u' \<and> py_eq u u'"
proof -
  have same: "\<exists>u'. edge tbl t' u' \<and> py_eq u u'" if "descriptor tbl t = Some d" for d
  proof -
    from descriptor_Class[OF that] obtain k where "t = Class k" by blast
    with eq have "t' = t" by (simp add: py_eq_Class)
    with e py_eq_refl show ?thesis by blast
  qed
  from e show ?thesis
  proof cases
    case (object_field fs f)
    then show ?thesis using same by blast
  next
    case (input_field fs f)
    then show ?thesis using same by blast
  next
    case (interface_field fs subs f)
    then show ?thesis using same by blast
  next
    case (implementor fs subs)
    then show ?thesis using same by blast
  next
    case (union_member ms)
    then show ?thesis using same by blast
  next
    case (wrapper_arg ts)
    from wrapper_arg(1) obtain oo xs where t: "t = Alias oo xs" and oo: "oo = UnionO \<or> oo = ListO"
      by (cases t rule: is_union.cases) auto
    from wrapper_arg(2) have xs: "xs \<noteq> []" "ts = xs" unfolding t by (simp_all add: py_args_Alias)
    from eq obtain ys where t': "t' = Alias oo ys" unfolding t by (cases t') auto
    have "\<exists>y\<in>set ys. py_eq u y"
    proof (cases "oo = UnionO")
      case True
      with eq have "\<forall>x\<in>set xs. \<exists>y\<in>set ys. py_eq x y"
        unfolding t t' by (simp add: list_all_iff list_ex_iff)
      with wrapper_arg(3) xs(2) show ?thesis by blast
    next
      case False
      with eq have l: "list_all2 py_eq xs ys" unfolding t t' by simp
      from wrapper_arg(3) xs(2) obtain i where i: "i < length xs" "u = xs ! i"
        by (auto simp: in_set_conv_nth)
      with l have "py_eq u (ys ! i)" "i < length ys"
        by (simp_all add: list_all2_conv_all_nth)
      then show ?thesis using nth_mem[of i ys] by blast
    qed
    then obtain y where y: "y \<in> set ys" "py_eq u y" by blast
    then have "ys \<noteq> []" by auto
    then have pa: "py_args t' = Inr ys" unfolding t' by (simp add: py_args_Alias)
    have w: "is_union t' \<or> is_list t'" using oo unfolding t' by auto
    have "edge tbl t' y" using w pa y(1) by (rule edge.wrapper_arg)
    with y(2) show ?thesis by blast
  qed
qed

lemma reachable_covered:
  assumes p: "post tbl ps st st'" and empty: "validated_type st = []"
    and r: "r \<in> reachable tbl (set ps)"
  shows "covered st' r"
  using r
proof induction
  case (root t)
  then show ?case by (rule post_roots[OF p])
next
  case (step t u)
  from step.IH obtain v where v: "v \<in> set (validated_type st')" "py_eq t v"
    unfolding covered_iff by blast
  from edge_py_eq[OF v(2) step.hyps(2)] obtain u' where u': "edge tbl v u'" "py_eq u u'"
    by blast
  have "v \<notin> set (validated_type st)" by (simp add: empty)
  from post_closed[OF p v(1) this u'(1)] obtain w where
    w: "w \<in> set (validated_type st')" "py_eq u' w"
    unfolding covered_iff by blast
  from py_eq_trans[OF u'(2) w(2)] w(1) show ?case unfolding covered_iff by blast
qed

lemma named_covered: "named tbl t \<Longrightarrow> covered st t \<Longrightarrow> t \<in> set (validated_type st)"
  using named_is_Class[of tbl t] by (auto simp: covered_def py_in_Class)

lemma count_list_distinct: "distinct xs \<Longrightarrow> count_list xs x = (if x \<in> set xs then 1 else 0)"
  by (induction xs) auto

lemma registry_from_empty:
  assumes "register_types tbl ps \<lparr>validated_type = [], registered_type = []\<rparr> = Some (Inr st')"
  shows "post tbl ps \<lparr>validated_type = [], registered_type = []\<rparr> st'"
  using register_types_spec[of tbl ps "\<lparr>validated_type = [], registered_type = []\<rparr>"] assms
  by auto

lemma registered_from_empty:
  assumes run: "register_types tbl ps \<lparr>validated_type = [], registered_type = []\<rparr> = Some (Inr st')"
  shows "distinct (registered_type st')"
    and "set (registered_type st') = {t \<in> reachable tbl (set ps). named tbl t}"
proof -
  let ?e = "\<lparr>validated_type = [], registered_type = []\<rparr>"
  note p = registry_from_empty[OF run]
  have d: "distinct (validated_type st')" using post_distinct[OF p] by simp
  have f: "registered_type st' = filter (named tbl) (validated_type st')"
    using post_registered[OF p] by simp
  show "distinct (registered_type st')" unfolding f using d by simp
  have sound: "set (validated_type st') \<subseteq> reachable tbl (set ps)"
    using post_sound[OF p] by simp
  show "set (registered_type st') = {t \<in> reachable tbl (set ps). named tbl t}"
  proof (intro equalityI subsetI)
    fix t assume "t \<in> set (registered_type st')"
    then show "t \<in> {t \<in> reachable tbl (set ps). named tbl t}" unfolding f using sound by auto
  next
    fix t assume "t \<in> {t \<in> reachable tbl (set ps). named tbl t}"
    then have r: "t \<in> reachable tbl (set ps)" and n: "named tbl t" by simp_all
    have "covered st' t" by (rule reachable_covered[OF p _ r]) simp
    from named_covered[OF n this] n show "t \<in> set (registered_type st')" unfolding f by simp
  qed
qed

lemma SchemaType_new_registry:
  assumes "SchemaType_new object_validate tbl attrs = Some (Inr S)"
  obtains ts st' where "set ts = root_types attrs"
    and "register_types tbl ts \<lparr>validated_type = [], registered_type = []\<rparr> = Some (Inr st')"
    and "registered S = registered_type st'"
proof -
  let ?e = "\<lparr>validated_type = [], registered_type = []\<rparr>"
  from assms obtain r where
    r: "register_fields_type tbl (map snd attrs) ?e = Some r"
      "map_sum id (\<lambda>st. \<lparr>root_fields = attrs, registered = registered_type st\<rparr>) r = Inr S"
    by (auto simp: SchemaType_new_def split: sum.splits)
  from r(2) obtain st' where st': "r = Inr st'" "registered S = registered_type st'"
    by (cases r) auto
  from r(1) st'(1) obtain ts where
    ts: "param_return_types (map snd attrs) = Inr ts" "register_types tbl ts ?e = Some (Inr st')"
    by (auto simp: register_fields_type_def split: sum.splits)
  have "set ts = root_types attrs"
    using param_return_types_set[OF ts(1)] by (simp add: root_types_def)
  then show ?thesis using ts(2) st'(2) by (rule that)
qed

lemma unwrapped_reachable: "t \<in> reachable tbl R \<Longrightarrow> unwrapped t \<in> reachable tbl R"
proof (induction t rule: unwrapped.induct)
  case (1 t)
  have "edge tbl (Alias ListO [t]) t" by (rule edge.wrapper_arg[where ts = "[t]"]) simp_all
  with "1.prems" have "t \<in> reachable tbl R" by (rule reachable.step)
  then show ?case using "1.IH" by simp
next
  case (2 t)
  have "edge tbl (Alias UnionO [t, NoneType]) t"
    by (rule edge.wrapper_arg[where ts = "[t, NoneType]"]) simp_all
  with "2.prems" have "t \<in> reachable tbl R" by (rule reachable.step)
  then show ?case using "2.IH" by simp
qed simp_all

lemma field_edge:
  assumes "(n, f) \<in> set (fields_of tbl c)" and "ftype f = Inr t"
  shows "edge tbl c t"
proof -
  have ft: "t \<in> field_types f" using assms(2) by (cases f) auto
  have fs: "f \<in> snd ` set (fields_of tbl c)" using assms(1) by force
  show ?thesis
  proof (cases "descriptor tbl c")
    case None
    with assms(1) show ?thesis by (simp add: fields_of_def)
  next
    case (Some d)
    show ?thesis
    proof (cases d)
      case (ObjectD x)
      with Some fs have "f \<in> snd ` set x" by (simp add: fields_of_def)
      with Some ObjectD ft show ?thesis by (auto intro: edge.object_field)
    next
      case (UnionD x)
      with Some assms(1) show ?thesis by (simp add: fields_of_def)
    next
      case (InputD x)
      with Some fs have "f \<in> snd ` set x" by (simp add: fields_of_def)
      with Some InputD ft show ?thesis by (auto intro: edge.input_field)
    next
      case (InterfaceD x y)
      with Some fs have "f \<in> snd ` set x" by (simp add: fields_of_def)
      with Some InterfaceD ft show ?thesis by (auto intro: edge.interface_field)
    next
      case (EnumD x)
      with Some assms(1) show ?thesis by (simp add: fields_of_def)
    qed
  qed
qed

text \<open>
  C1: after the construction of a schema, every named type (Object, Union, Input,
  Interface, Enum class) that is reachable from the types of the root's fields, along
  field types, resolver parameter types, union members, interface implementors and the
  arguments of union and list aliases, is in \<^verbatim>\<open>registered_type\<close> exactly once, and nothing
  else is in it. This holds for every class table: cycles, mutual references and
  types reached along several paths included.
\<close>

theorem registered_exactly_once:
  assumes "SchemaType_new object_validate tbl attrs = Some (Inr S)"
  shows "count_list (registered S) t =
           (if named tbl t \<and> t \<in> reachable tbl (root_types attrs) then 1 else 0)"
proof -
  from assms obtain ts st' where ts: "set ts = root_types attrs"
    and run: "register_types tbl ts \<lparr>validated_type = [], registered_type = []\<rparr> = Some (Inr st')"
    and reg: "registered S = registered_type st'"
    by (rule SchemaType_new_registry)
  from registered_from_empty[OF run] show ?thesis
    unfolding reg ts by (simp add: count_list_distinct)
qed

text \<open>
  C6: list and optional wrappers are transparent for registration. For every field of
  the schema root or of a registered class whose declared type is a named type \<open>X\<close>
  under any number of list and optional wrappers, \<open>X\<close> is in \<^verbatim>\<open>registered_type\<close> exactly
  once, and no union or list alias is ever an entry of \<^verbatim>\<open>registered_type\<close>.
\<close>

theorem wrappers_are_transparent:
  assumes "SchemaType_new object_validate tbl attrs = Some (Inr S)"
    and "(n, f) \<in> set attrs \<or> (\<exists>c\<in>set (registered S). (n, f) \<in> set (fields_of tbl c))"
    and "ftype f = Inr t"
    and "named tbl (unwrapped t)"
  shows "count_list (registered S) (unwrapped t) = 1 \<and>
         (\<forall>r\<in>set (registered S). \<not> is_union r \<and> \<not> is_list r)"
proof -
  from assms(1) obtain ts st' where ts: "set ts = root_types attrs"
    and run: "register_types tbl ts \<lparr>validated_type = [], registered_type = []\<rparr> = Some (Inr st')"
    and reg: "registered S = registered_type st'"
    by (rule SchemaType_new_registry)
  note r = registered_from_empty[OF run]
  have "t \<in> reachable tbl (set ts)"
  proof (cases "(n, f) \<in> set attrs")
    case True
    have "t \<in> field_types f" using assms(3) by (cases f) auto
    with True have "t \<in> root_types attrs" by (force simp: root_types_def)
    then show ?thesis unfolding ts by (rule reachable.root)
  next
    case False
    with assms(2) obtain c where c: "c \<in> set (registered S)" "(n, f) \<in> set (fields_of tbl c)"
      by blast
    from c(1) have "c \<in> reachable tbl (set ts)" unfolding reg r(2) by simp
    then show ?thesis using field_edge[OF c(2) assms(3)] by (rule reachable.step)
  qed
  then have "unwrapped t \<in> reachable tbl (set ts)" by (rule unwrapped_reachable)
  with assms(4) have "unwrapped t \<in> set (registered S)" unfolding reg r(2) by simp
  then have one: "count_list (registered S) (unwrapped t) = 1"
    using r(1) unfolding reg by (simp add: count_list_distinct)
  have "\<not> is_union x \<and> \<not> is_list x" if "x \<in> set (registered S)" for x
  proof -
    from that have "named tbl x" unfolding reg r(2) by simp
    then show ?thesis using kinds_disjoint(6)[of x tbl] by blast
  qed
  with one show ?thesis by blast
qed


section \<open>Execution\<close>

lemma execute_definitions_find:
  "execute_definitions C S vars req document ds w =
    (case find executable ds of
       None \<Rightarrow> (Inr None, w)
     | Some (OperationDefinitionNode operation selections) \<Rightarrow>
         execute_operation C S vars req document operation selections w
     | Some (FragmentDefinitionNode _) \<Rightarrow> (Inr None, w))"
proof (induction ds)
  case Nil
  show ?case by simp
next
  case (Cons d ds)
  show ?case
  proof (cases d)
    case (OperationDefinitionNode operation selections)
    then show ?thesis using Cons by (cases operation) simp_all
  next
    case (FragmentDefinitionNode n)
    then show ?thesis using Cons by simp
  qed
qed


lemma find_none: "\<forall>d\<in>set ds. \<not> P d \<Longrightarrow> find P ds = None"
  by (induction ds) simp_all

lemma finish_fst:
  "fst (finish C token obj ec w) =
     (case encode C \<lparr>errors = (if ec = [] then None else Some ec), data = obj\<rparr> of
        Inl x \<Rightarrow> Inl x
      | Inr serialized \<Rightarrow> Inr (Some (serialized, ec = [])))"
  by (simp add: finish_def Let_def split: sum.splits)


lemma finish_eq: "finish C token obj ec w = (fst (finish C token obj ec w), snd (finish C token obj ec w))"
  by simp




text \<open>
  C9: when no definition of the parsed document is an operation of kind query or
  mutation, \<^verbatim>\<open>execute\<close> raises nothing and returns \<^verbatim>\<open>None\<close>: no envelope, no success
  flag, and no effect on the context variable or the trace.
\<close>

theorem execute_without_operation_returns_nothing:
  assumes "parse C query = Inr document"
    and "\<forall>d\<in>set document. \<not> executable d"
  shows "execute C S query vars req w = (Inr None, w)"
  using assms find_none[of document executable]
  by (simp add: execute_def execute_definitions_find)

text \<open>
  C10: when the root of the schema declares \<^verbatim>\<open>query\<close> but not \<^verbatim>\<open>mutation\<close> and the first
  executable operation of the document is a mutation, \<^verbatim>\<open>execute\<close> raises
  \<^verbatim>\<open>KeyError('mutation')\<close> to its caller; the world is unchanged, so no context was bound,
  nothing was resolved and no envelope was built.
\<close>

theorem execute_mutation_without_mutation_root:
  assumes "parse C query = Inr document"
    and "find executable document = Some (OperationDefinitionNode MUTATION selections)"
    and "map_of (root_fields S) ''query'' = Some q"
    and "map_of (root_fields S) ''mutation'' = None"
  shows "execute C S query vars req w = (Inl (KeyError ''mutation''), w)"
  using assms
  by (simp add: execute_def execute_definitions_find execute_operation_def root_type_def
      FIELD_MAP_def)


text \<open>
  C4: for every execution that reaches the construction of the envelope (the resolution
  returned, or raised an \<^verbatim>\<open>Exception\<close>), the envelope handed to the serializer has as
  \<^verbatim>\<open>errors\<close> the collected error list when it is not empty and \<^verbatim>\<open>None\<close> when it is, and
  as \<^verbatim>\<open>data\<close> the value resolution left in \<^verbatim>\<open>obj\<close>; the success flag returned with the
  serialized envelope is true exactly when the error list is empty. When the serializer
  raises, its exception is raised to the caller and no flag is returned.
\<close>

theorem execute_builds_envelope:
  assumes "parse C query = Inr document"
    and "find executable document = Some (OperationDefinitionNode operation selections)"
    and "root_type S operation = Inr cls"
    and "construct C cls = Inr obj"
    and "resolve C \<lparr>ctx_schema = S, root_ast = document, ctx_request = req,
           ctx_variables = vars\<rparr> obj selections [] = r"
    and "\<not> propagates r"
  shows "fst (execute C S query vars req w) =
    (case encode C \<lparr>errors = (if collected_errors r = [] then None
                                else Some (collected_errors r)),
                     data = resolved_value r\<rparr> of
       Inl x \<Rightarrow> Inl x
     | Inr serialized \<Rightarrow> Inr (Some (serialized, collected_errors r = [])))"
proof (cases r)
  case (Returned v ec)
  have "resolve C \<lparr>ctx_schema = S, root_ast = document, ctx_request = req,
           ctx_variables = vars\<rparr> obj selections [] = Returned v ec"
    using assms(5) by (simp add: Returned)
  then show ?thesis unfolding Returned using assms(1-4)
    by (simp add: execute_def execute_definitions_find execute_operation_def Let_def finish_fst
        split: sum.splits)
next
  case (Raised e inst ec)
  have "resolve C \<lparr>ctx_schema = S, root_ast = document, ctx_request = req,
           ctx_variables = vars\<rparr> obj selections [] = Raised e inst ec"
    using assms(5) by (simp add: Raised)
  moreover have "is_Exception e" using assms(6) by (simp add: Raised)
  ultimately show ?thesis unfolding Raised using assms(1-4)
    by (simp add: execute_def execute_definitions_find execute_operation_def Let_def finish_fst
        split: sum.splits)
qed

lemma root_checks_ok:
  "list_all (well_formed_root tbl) attrs \<Longrightarrow> root_checks tbl attrs = Inr ()"
proof (induction attrs)
  case Nil
  show ?case by simp
next
  case (Cons a attrs)
  obtain name f where a: "a = (name, f)" by (cases a)
  from Cons.prems have w: "well_formed_root tbl (name, f)" and r: "list_all (well_formed_root tbl) attrs"
    by (simp_all add: a)
  from w show ?case unfolding a
    by (auto simp: VALID_ROOT_TYPES_def Cons.IH[OF r] split: sum.splits)
qed

lemma root_checks_fail:
  "\<not> list_all (well_formed_root tbl) attrs \<Longrightarrow>
     \<exists>v. root_checks tbl attrs = Inl (ValidationError v) \<and>
       (v = NotOptional \<or> v = NotObject \<or> v = InvalidField \<or> (\<exists>n. v = InvalidRootName n))"
proof (induction attrs)
  case Nil
  then show ?case by simp
next
  case (Cons a attrs)
  obtain name f where a: "a = (name, f)" by (cases a)
  show ?case
  proof (cases "well_formed_root tbl (name, f)")
    case True
    with Cons.prems have "\<not> list_all (well_formed_root tbl) attrs"
      unfolding a list.pred_inject by blast
    from Cons.IH[OF this] True show ?thesis unfolding a
      by (auto simp: VALID_ROOT_TYPES_def split: sum.splits)
  next
    case False
    show ?thesis
    proof (cases f)
      case NonField
      then show ?thesis unfolding a by (simp add: VALID_ROOT_TYPES_def)
    next
      case (Field t)
      with False show ?thesis unfolding a
        by (cases t rule: is_optional.cases) (auto simp: VALID_ROOT_TYPES_def)
    next
      case (ResolverField t ps)
      with False show ?thesis unfolding a
        by (cases t rule: is_optional.cases) (auto simp: VALID_ROOT_TYPES_def)
    qed
  qed
qed

section \<open>The example schema, evaluated\<close>

lemmas registrar_eval =
  register_types_Nil register_types_step expand_def mark_def named_def descriptor_def
  is_ObjectType_def is_UnionType_def is_InputType_def is_InterfaceType_def is_EnumType_def
  fields_of_def members_def subclasses_def register_def Let_def py_in_def

lemma demo_registry:
  "register_types demo_table [Alias UnionO [Class 11, NoneType]]
     \<lparr>validated_type = [], registered_type = []\<rparr> =
   Some (Inr \<lparr>validated_type =
       [Alias UnionO [Class 11, NoneType], Class 11, Class 100,
        Alias ListO [Alias UnionO [Class 12, NoneType]], Alias UnionO [Class 12, NoneType],
        Class 12, NoneType, Class 13, Class 14, Class 15, Class 17, Class 16],
     registered_type = [Class 11, Class 12, Class 13, Class 14, Class 15, Class 17, Class 16]\<rparr>)"
  unfolding demo_table_def by (simp add: registrar_eval)

lemma demo_schema_new:
  "SchemaType_new (\<lambda>_. Inr ()) demo_table demo_root = Some (Inr demo_schema)"
  by (simp add: SchemaType_new_def validate_def demo_root_def VALID_ROOT_TYPES_def
      register_fields_type_def demo_registry demo_schema_def is_ObjectType_def descriptor_def)
    (simp add: demo_table_def)


theorem registered_exactly_once_witness:
  "SchemaType_new (\<lambda>_. Inr ()) demo_table demo_root = Some (Inr demo_schema) \<and>
   registered demo_schema =
     [Class 11, Class 12, Class 13, Class 14, Class 15, Class 17, Class 16] \<and>
   count_list (registered demo_schema) (Class 15) = 1 \<and>
   named demo_table (Class 15) \<and>
   Class 15 \<in> reachable demo_table (root_types demo_root) \<and>
   count_list (registered demo_schema) (Class 100) = 0"
  using registered_exactly_once[OF demo_schema_new, of "Class 15"]
    registered_exactly_once[OF demo_schema_new, of "Class 100"] demo_schema_new
  by (simp add: demo_schema_def split: if_splits)

theorem wrappers_are_transparent_witness:
  "SchemaType_new (\<lambda>_. Inr ()) demo_table demo_root = Some (Inr demo_schema) \<and>
   unwrapped (Alias ListO [Alias UnionO [Class 12, NoneType]]) = Class 12 \<and>
   count_list (registered demo_schema) (Class 12) = 1 \<and>
   list_all (\<lambda>r. \<not> is_union r \<and> \<not> is_list r) (registered demo_schema)"
  using wrappers_are_transparent[OF demo_schema_new, of "''friends''"
      "Field (Alias ListO [Alias UnionO [Class 12, NoneType]])"
      "Alias ListO [Alias UnionO [Class 12, NoneType]]"] demo_schema_new
  by (simp add: demo_schema_def demo_table_def demo_root_def fields_of_def descriptor_def
      named_def)





theorem execute_without_operation_returns_nothing_witness:
  "execute demo_collaborators demo_schema ''fragment f'' None None demo_world =
     (Inr None, demo_world)"
  using execute_without_operation_returns_nothing[of demo_collaborators "''fragment f''"
      "[FragmentDefinitionNode ''f'', OperationDefinitionNode SUBSCRIPTION [''tick'']]"
      demo_schema None None demo_world]
  by (simp add: demo_collaborators_def)

theorem execute_mutation_without_mutation_root_witness:
  "SchemaType_new (\<lambda>_. Inr ()) demo_table demo_root = Some (Inr demo_schema) \<and>
   execute demo_collaborators demo_schema ''mutation { bump }'' None None demo_world =
     (Inl (KeyError ''mutation''), demo_world)"
  using execute_mutation_without_mutation_root[of demo_collaborators "''mutation { bump }''"
      "[OperationDefinitionNode MUTATION [''bump'']]" "[''bump'']" demo_schema
      "Field (Alias UnionO [Class 11, NoneType])" None None demo_world]
    demo_schema_new
  by (simp add: demo_collaborators_def demo_schema_def demo_root_def)



theorem execute_builds_envelope_witness:
  "fst (execute demo_collaborators demo_schema ''{ hello }'' None None demo_world) =
     Inr (Some (''data'', True)) \<and>
   fst (execute demo_collaborators demo_schema ''{ boom }'' None None demo_world) =
     Inr (Some (''errors'', False)) \<and>
   fst (execute demo_collaborators demo_schema ''{ blob }'' None None demo_world) =
     Inl TypeError"
  using execute_builds_envelope[of demo_collaborators "''{ hello }''" demo_document QUERY
      "[''hello'']" demo_schema "Class 11" "PyInstance (Class 11) []" None None
      "Returned (PyInstance (Class 11) [(''hello'', PyStr ''world'')]) []" demo_world]
    execute_builds_envelope[of demo_collaborators "''{ boom }''"
      "[OperationDefinitionNode QUERY [''boom'']]" QUERY "[''boom'']" demo_schema "Class 11"
      "PyInstance (Class 11) []" None None
      "Raised (ResolveError ''boom'') (PyInstance (Class 11) []) []" demo_world]
    execute_builds_envelope[of demo_collaborators "''{ blob }''"
      "[OperationDefinitionNode QUERY [''blob'']]" QUERY "[''blob'']" demo_schema "Class 11"
      "PyInstance (Class 11) []" None None
      "Returned (PyOpaque ''socket'') []" demo_world]
  by (simp add: demo_collaborators_def demo_schema_def demo_root_def demo_document_def
      root_type_def FIELD_MAP_def)

text \<open>
  C5: the root-shape checks of \<^verbatim>\<open>SchemaType.validate\<close>. When every declared field of the
  root is well formed (named \<^verbatim>\<open>query\<close> or \<^verbatim>\<open>mutation\<close>, a field, of an optional-wrapped
  type whose inner type is an Object type), the checks raise nothing and validation is
  left to \<^verbatim>\<open>ObjectType.validate\<close>. When some declared field is not, validation raises
  \<^verbatim>\<open>ValidationError\<close> and \<^verbatim>\<open>SchemaType.__new__\<close> raises it too: no schema is built.
\<close>

theorem root_shape_enforced:
  "(list_all (well_formed_root tbl) attrs \<longrightarrow>
      root_checks tbl attrs = Inr () \<and>
      validate object_validate tbl attrs = object_validate attrs) \<and>
   (\<not> list_all (well_formed_root tbl) attrs \<longrightarrow>
      (\<exists>v. validate object_validate tbl attrs = Inl (ValidationError v) \<and>
           SchemaType_new object_validate tbl attrs = Some (Inl (ValidationError v))))"
proof (intro conjI impI)
  assume ok: "list_all (well_formed_root tbl) attrs"
  show "root_checks tbl attrs = Inr ()" by (rule root_checks_ok[OF ok])
  then show "validate object_validate tbl attrs = object_validate attrs"
    by (simp add: validate_def)
next
  assume "\<not> list_all (well_formed_root tbl) attrs"
  from root_checks_fail[OF this] obtain v where "root_checks tbl attrs = Inl (ValidationError v)"
    by blast
  then have "validate object_validate tbl attrs = Inl (ValidationError v) \<and>
      SchemaType_new object_validate tbl attrs = Some (Inl (ValidationError v))"
    by (simp add: validate_def SchemaType_new_def)
  then show "\<exists>v. validate object_validate tbl attrs = Inl (ValidationError v) \<and>
           SchemaType_new object_validate tbl attrs = Some (Inl (ValidationError v))"
    by blast
qed

theorem root_shape_enforced_witness:
  "validate (\<lambda>_. Inr ()) demo_table demo_root = Inr () \<and>
   validate (\<lambda>_. Inr ()) demo_table [(''subscription'', Field (Alias UnionO [Class 11, NoneType]))]
     = Inl (ValidationError (InvalidRootName ''subscription'')) \<and>
   validate (\<lambda>_. Inr ()) demo_table [(''query'', NonField)] = Inl (ValidationError InvalidField) \<and>
   validate (\<lambda>_. Inr ()) demo_table [(''query'', Field (Class 11))]
     = Inl (ValidationError NotOptional) \<and>
   validate (\<lambda>_. Inr ()) demo_table
       [(''query'', Field (Alias UnionO [Class 11, NoneType])),
        (''mutation'', Field (Alias UnionO [Class 12, NoneType]))]
     = Inl (ValidationError NotObject) \<and>
   SchemaType_new (\<lambda>_. Inr ()) demo_table [(''query'', Field (Class 11))]
     = Some (Inl (ValidationError NotOptional))"
  using root_shape_enforced[of demo_table demo_root "\<lambda>_. Inr ()"]
    root_shape_enforced[of demo_table "[(''query'', Field (Class 11))]" "\<lambda>_. Inr ()"]
  by (simp add: demo_table_def demo_root_def validate_def SchemaType_new_def VALID_ROOT_TYPES_def
      is_ObjectType_def descriptor_def)

end
